theory Spec2Isabelle
  imports Complex_Main "HOL-Library.Sublist" "HOL-Library.Multiset"
begin

section \<open>The data table component: values, records, columns\<close>

text \<open>
  A field of a record holds a JavaScript value. The component only ever tests a field
  against \<open>null\<close>/\<open>undefined\<close> (\<open>val != null\<close>, \<open>aVal == null\<close>) and
  converts it with \<open>String(val)\<close>, so the model keeps the primitive values: \<open>null\<close>,
  \<open>undefined\<close>, strings, integral numbers in the safe range (for which \<open>String\<close> is the
  decimal numeral) and booleans. Strings are lists of characters.
\<close>

datatype jsval = Null | Undefined | Str string | Num int | Bool bool

text \<open>\<open>v == null\<close>: true for \<open>null\<close> and for \<open>undefined\<close>.\<close>

fun nullish :: "jsval \<Rightarrow> bool" where
  "nullish Null = True"
| "nullish Undefined = True"
| "nullish _ = False"

definition digit_char :: "nat \<Rightarrow> char" where
  "digit_char d = char_of (48 + d)"

function show_nat :: "nat \<Rightarrow> string" where
  "show_nat n = (if n < 10 then [digit_char n] else show_nat (n div 10) @ [digit_char (n mod 10)])"
  by pat_completeness auto
termination
  by (relation "measure (\<lambda>n. n)") auto

definition show_int :: "int \<Rightarrow> string" where
  "show_int i = (if i < 0 then CHR ''-'' # show_nat (nat (- i)) else show_nat (nat i))"

text \<open>\<open>String(v)\<close>.\<close>

fun String :: "jsval \<Rightarrow> string" where
  "String Null = ''null''"
| "String Undefined = ''undefined''"
| "String (Str s) = s"
| "String (Num n) = show_int n"
| "String (Bool b) = (if b then ''true'' else ''false'')"

text \<open>
  A record (\<open>T extends { id: string | number }\<close>) is an object: its own properties in
  order, read with \<open>row[key]\<close>, which is \<open>undefined\<close> for a property the object
  does not have. The identifier is the property \<open>id\<close>.
\<close>

type_synonym row = "(string \<times> jsval) list"

definition getField :: "row \<Rightarrow> string \<Rightarrow> jsval" where
  "getField r k = (case map_of r k of None \<Rightarrow> Undefined | Some v \<Rightarrow> v)"

definition row_id :: "row \<Rightarrow> jsval" where
  "row_id r = getField r ''id''"

datatype SortDirection = Asc | Desc

text \<open>
  \<open>interface Column<T>\<close>. The optional flags are read for truthiness only, so a missing
  flag is \<open>False\<close>; \<open>width\<close> and \<open>render\<close> only reach the markup and are left out.
\<close>

record column =
  key :: string
  title :: string
  sortable :: bool
  filterable :: bool

section \<open>String operations of the platform\<close>

text \<open>
  \<open>trim\<close>, \<open>toLowerCase\<close> and \<open>includes\<close> of \<open>String.prototype\<close>, on the ASCII
  range: white space is TAB, LF, VT, FF, CR and SPACE, and lower-casing maps \<open>A\<close>..\<open>Z\<close>
  to \<open>a\<close>..\<open>z\<close>.
\<close>

definition is_space :: "char \<Rightarrow> bool" where
  "is_space c = (let n = (of_char c :: nat) in (9 \<le> n \<and> n \<le> 13) \<or> n = 32)"

definition trim :: "string \<Rightarrow> string" where
  "trim s = rev (dropWhile is_space (rev (dropWhile is_space s)))"

definition lower_char :: "char \<Rightarrow> char" where
  "lower_char c = (let n = (of_char c :: nat) in if 65 \<le> n \<and> n \<le> 90 then char_of (n + 32) else c)"

definition toLowerCase :: "string \<Rightarrow> string" where
  "toLowerCase s = map lower_char s"

fun starts_with :: "string \<Rightarrow> string \<Rightarrow> bool" where
  "starts_with s [] = True"
| "starts_with [] (c # q) = False"
| "starts_with (d # s) (c # q) = (d = c \<and> starts_with s q)"

text \<open>\<open>s.includes(q)\<close>: \<open>q\<close> occurs in \<open>s\<close> at some position.\<close>

fun str_includes :: "string \<Rightarrow> string \<Rightarrow> bool" where
  "str_includes [] q = (q = [])"
| "str_includes (d # s) q = (starts_with (d # s) q \<or> str_includes s q)"

text \<open>
  \<open>xs.slice(start, end)\<close> of \<open>Array.prototype\<close>: a negative index counts from the end,
  both indices are clamped into the array, and an empty range gives the empty array.
\<close>

definition slice :: "'a list \<Rightarrow> int \<Rightarrow> int \<Rightarrow> 'a list" where
  "slice xs start fin =
     (let len = int (length xs);
          k = (if start < 0 then max (len + start) 0 else min start len);
          final = (if fin < 0 then max (len + fin) 0 else min fin len)
      in take (nat (final - k)) (drop (nat k) xs))"

text \<open>
  \<open>xs.sort(compare)\<close> of \<open>Array.prototype\<close> is the engine's: ECMAScript asks for a stable
  sort that calls \<open>compare(a, b)\<close> and puts \<open>a\<close> before \<open>b\<close> when the result is
  negative, and leaves the order to the engine where the comparator is not consistent (as
  the one of the sort stage is on two null values). It is modelled as the stable insertion
  sort, which engines use on short arrays: the elements are taken from left to right, and
  each one is placed before the first element of the sorted prefix that it compares below.
\<close>

fun sort_insert :: "('a \<Rightarrow> 'a \<Rightarrow> int) \<Rightarrow> 'a \<Rightarrow> 'a list \<Rightarrow> 'a list" where
  "sort_insert compare x [] = [x]"
| "sort_insert compare x (y # ys) =
     (if compare x y < 0 then x # y # ys else y # sort_insert compare x ys)"

definition array_sort :: "('a \<Rightarrow> 'a \<Rightarrow> int) \<Rightarrow> 'a list \<Rightarrow> 'a list" where
  "array_sort compare xs = foldl (\<lambda>acc x. sort_insert compare x acc) [] xs"

text \<open>
  \<open>a.localeCompare(b, undefined, { numeric: true })\<close> is the collation of the host's
  locale; it is a parameter \<open>lc\<close> of the sort stage. A collation is a consistent
  comparator: equal on equal strings, antisymmetric in sign, and transitive.
\<close>

definition consistent_comparator :: "(string \<Rightarrow> string \<Rightarrow> int) \<Rightarrow> bool" where
  "consistent_comparator lc =
     ((\<forall>a. lc a a = 0) \<and> (\<forall>a b. (lc a b < 0) = (0 < lc b a)) \<and>
      (\<forall>a b c. lc a b \<le> 0 \<and> lc b c \<le> 0 \<longrightarrow> lc a c \<le> 0))"

text \<open>A sample collation for running the sort stage: comparison by character codes.\<close>

fun code_compare :: "string \<Rightarrow> string \<Rightarrow> int" where
  "code_compare [] [] = 0"
| "code_compare [] (y # ys) = - 1"
| "code_compare (x # xs) [] = 1"
| "code_compare (x # xs) (y # ys) =
     (if (of_char x :: nat) < of_char y then - 1
      else if (of_char y :: nat) < of_char x then 1
      else code_compare xs ys)"

section \<open>Component state\<close>

text \<open>The \<open>useState\<close> cells of \<open>DataTable\<close>, with their initial values.\<close>

record table_state =
  search :: string
  sortKey :: "string option"
  sortDir :: "SortDirection option"
  currentPage :: int
  selected :: "jsval set"
  hoveredRow :: "jsval option"

definition initial_state :: table_state where
  "initial_state =
     \<lparr>search = '''', sortKey = None, sortDir = None, currentPage = 1,
      selected = {}, hoveredRow = None\<rparr>"

section \<open>Derived values: filter, sort, paginate\<close>

text \<open>The predicate of \<open>columns.some\<close> in the filter stage.\<close>

definition row_matches :: "column list \<Rightarrow> string \<Rightarrow> row \<Rightarrow> bool" where
  "row_matches cols q r =
     list_ex (\<lambda>col. let val = getField r (key col)
                    in \<not> nullish val \<and> str_includes (toLowerCase (String val)) q) cols"

definition filtered :: "row list \<Rightarrow> string \<Rightarrow> column list \<Rightarrow> row list" where
  "filtered dat srch cols =
     (if trim srch = [] then dat
      else let q = toLowerCase srch in filter (row_matches cols q) dat)"

text \<open>The comparator handed to \<open>sort\<close> in the sort stage.\<close>

definition compare_rows ::
  "(string \<Rightarrow> string \<Rightarrow> int) \<Rightarrow> string \<Rightarrow> SortDirection \<Rightarrow> row \<Rightarrow> row \<Rightarrow> int" where
  "compare_rows lc k dir a b =
     (let aVal = getField a k; bVal = getField b k
      in if nullish aVal then 1
         else if nullish bVal then - 1
         else let cmp = lc (String aVal) (String bVal)
              in if dir = Asc then cmp else - cmp)"

text \<open>
  \<open>!sortKey || !sortDir\<close>: the key is falsy when it is \<open>null\<close> or the empty string, the
  direction when it is \<open>null\<close>.
\<close>

definition sorted_rows ::
  "(string \<Rightarrow> string \<Rightarrow> int) \<Rightarrow> row list \<Rightarrow> string option \<Rightarrow> SortDirection option \<Rightarrow> row list" where
  "sorted_rows lc flt sk sd =
     (case (sk, sd) of
        (Some k, Some dir) \<Rightarrow> if k = [] then flt else array_sort (compare_rows lc k dir) flt
      | _ \<Rightarrow> flt)"

text \<open>
  \<open>Math.max(1, Math.ceil(sorted.length / pageSize))\<close>, for a page size that is a positive
  integer (the division is that of the reals, then \<open>ceil\<close>).
\<close>

definition totalPages :: "'a list \<Rightarrow> int \<Rightarrow> int" where
  "totalPages srt pageSize = max 1 \<lceil>real (length srt) / real_of_int pageSize\<rceil>"

definition safeCurrentPage :: "int \<Rightarrow> int \<Rightarrow> int" where
  "safeCurrentPage curPage tpages = min curPage tpages"

definition paginated :: "'a list \<Rightarrow> int \<Rightarrow> int \<Rightarrow> 'a list" where
  "paginated srt safePage pageSize =
     (let start = (safePage - 1) * pageSize in slice srt start (start + pageSize))"

text \<open>
  The numbered page buttons: \<open>Array.from({ length: Math.min(5, totalPages) }, ...)\<close>. An
  entry is \<open>None\<close> where the callback returns \<open>null\<close> (nothing is rendered for it).
\<close>

definition windowPage :: "int \<Rightarrow> int \<Rightarrow> nat \<Rightarrow> int" where
  "windowPage safePage tpages i = max 1 (min (safePage - 2) (tpages - 4)) + int i"



section \<open>Event handlers\<close>

text \<open>
  Each handler returns the next state; a handler that calls a callback of the props also
  returns the arguments the callback receives.
\<close>

definition handleSort :: "string \<Rightarrow> table_state \<Rightarrow> table_state \<times> (string \<times> SortDirection option)" where
  "handleSort k st =
     (let dir = (if sortKey st = Some k
                 then (if sortDir st = Some Asc then Some Desc
                       else if sortDir st = Some Desc then None else Some Asc)
                 else Some Asc)
      in (st\<lparr>sortKey := (if dir \<noteq> None then Some k else None), sortDir := dir\<rparr>, (k, dir)))"

definition toggleRow :: "row list \<Rightarrow> jsval \<Rightarrow> table_state \<Rightarrow> table_state \<times> row list" where
  "toggleRow dat rid st =
     (let prev = selected st;
          next = (if rid \<in> prev then prev - {rid} else insert rid prev)
      in (st\<lparr>selected := next\<rparr>, filter (\<lambda>r. row_id r \<in> next) dat))"

definition toggleAll :: "row list \<Rightarrow> row list \<Rightarrow> table_state \<Rightarrow> table_state \<times> row list" where
  "toggleAll pag dat st =
     (let prev = selected st;
          allIds = map row_id pag;
          allSelected = list_all (\<lambda>i. i \<in> prev) allIds;
          next = fold (\<lambda>i nxt. if allSelected then nxt - {i} else insert i nxt) allIds prev
      in (st\<lparr>selected := next\<rparr>, filter (\<lambda>r. row_id r \<in> next) dat))"

text \<open>The search input's \<open>onChange\<close>.\<close>

definition onSearchChange :: "string \<Rightarrow> table_state \<Rightarrow> table_state" where
  "onSearchChange v st = st\<lparr>search := v, currentPage := 1\<rparr>"

text \<open>
  The Prev and Next buttons, and the numbered button at index \<open>i\<close> of the window, whose
  \<open>onClick\<close> stores the page number it shows.
\<close>

definition onPrev :: "table_state \<Rightarrow> table_state" where
  "onPrev st = st\<lparr>currentPage := max 1 (currentPage st - 1)\<rparr>"

definition onNext :: "int \<Rightarrow> table_state \<Rightarrow> table_state" where
  "onNext tpages st = st\<lparr>currentPage := min tpages (currentPage st + 1)\<rparr>"

definition onPageButton :: "int \<Rightarrow> int \<Rightarrow> nat \<Rightarrow> table_state \<Rightarrow> table_state" where
  "onPageButton safePage tpages i st = st\<lparr>currentPage := windowPage safePage tpages i\<rparr>"

text \<open>
  The events that store a page number, each with what the render it comes from has
  computed: the number of pages for Next, the clamped page, the number of pages and the
  index of the button for a numbered button.
\<close>

datatype page_event =
  SearchEdit string | PrevClick | NextClick int | PageClick int int nat

fun page_step :: "table_state \<Rightarrow> page_event \<Rightarrow> table_state" where
  "page_step st (SearchEdit v) = onSearchChange v st"
| "page_step st PrevClick = onPrev st"
| "page_step st (NextClick tpages) = onNext tpages st"
| "page_step st (PageClick safePage tpages i) = onPageButton safePage tpages i st"

text \<open>The number of pages of a render is at least 1 (it is a maximum with 1).\<close>

fun rendered_event :: "page_event \<Rightarrow> bool" where
  "rendered_event (NextClick tpages) = (1 \<le> tpages)"
| "rendered_event _ = True"

section \<open>Properties stated about the component\<close>

text \<open>The invariant of the sort state: the direction is none exactly when the key is none.\<close>

definition sort_invariant :: "table_state \<Rightarrow> bool" where
  "sort_invariant st = ((sortDir st = None) = (sortKey st = None))"

text \<open>
  The order the sort stage establishes: on two values that are not null, the collation in
  the direction of the sort; on records, a null value only before null values.
\<close>

definition value_order ::
  "(string \<Rightarrow> string \<Rightarrow> int) \<Rightarrow> SortDirection \<Rightarrow> jsval \<Rightarrow> jsval \<Rightarrow> bool" where
  "value_order lc dir u v =
     (if dir = Asc then lc (String u) (String v) \<le> 0 else 0 \<le> lc (String u) (String v))"

definition row_order ::
  "(string \<Rightarrow> string \<Rightarrow> int) \<Rightarrow> string \<Rightarrow> SortDirection \<Rightarrow> row \<Rightarrow> row \<Rightarrow> bool" where
  "row_order lc k dir a b =
     ((nullish (getField a k) \<longrightarrow> nullish (getField b k)) \<and>
      (\<not> nullish (getField a k) \<and> \<not> nullish (getField b k) \<longrightarrow>
         value_order lc dir (getField a k) (getField b k)))"

section \<open>Sample data\<close>

text \<open>Three records and one column, for running the stages on concrete input.\<close>

definition sample_bob :: row where
  "sample_bob = [(''id'', Num 1), (''name'', Str ''Bob'')]"

definition sample_anon :: row where
  "sample_anon = [(''id'', Num 3), (''name'', Null)]"

definition sample_alice :: row where
  "sample_alice = [(''id'', Num 2), (''name'', Str ''Alice'')]"

definition sample_data :: "row list" where
  "sample_data = [sample_bob, sample_anon, sample_alice]"

definition name_column :: column where
  "name_column = \<lparr>key = ''name'', title = ''Name'', sortable = True, filterable = False\<rparr>"

text \<open>
  Two records with a property whose name is the empty string, as in
  \<open>{ id: 1, '': 'b' }\<close>, and the sortable column for it.
\<close>

definition sample_row_b :: row where
  "sample_row_b = [(''id'', Num 1), ('''', Str ''b'')]"

definition sample_row_a :: row where
  "sample_row_a = [(''id'', Num 2), ('''', Str ''a'')]"

definition empty_key_column :: column where
  "empty_key_column = \<lparr>key = '''', title = ''Code'', sortable = True, filterable = False\<rparr>"

section \<open>Search\<close>

text \<open>
  C10. Every edit of the search text stores the new text and sets the current page to 1,
  whatever the page was before and whatever the new text is.
\<close>

theorem search_change_resets_page:
  "currentPage (onSearchChange v st) = 1 \<and> search (onSearchChange v st) = v"
  by (simp add: onSearchChange_def)

section \<open>The filter stage\<close>

lemma starts_with_prefix: "starts_with s q = prefix q s"
  by (induction s q rule: starts_with.induct) auto

lemma str_includes_sublist: "str_includes s q = sublist q s"
  by (induction s) (auto simp add: starts_with_prefix sublist_Cons_right)

text \<open>
  C1, as the code has it. For a search string whose trimmed form is not empty, the filter
  stage returns the records, in the order of the data, for which some column's field value
  is not null and, converted to a string and lower-cased, contains the lower-cased search
  string as it was typed (surrounding white space included) as a substring; every record
  left out has no such column.
\<close>

theorem filter_stage_matches:
  assumes "trim srch \<noteq> []"
  shows "filtered dat srch cols =
           filter (\<lambda>r. \<exists>col \<in> set cols.
                          \<not> nullish (getField r (key col)) \<and>
                          sublist (toLowerCase srch) (toLowerCase (String (getField r (key col)))))
                  dat"
proof -
  have "row_matches cols (toLowerCase srch) =
          (\<lambda>r. \<exists>col \<in> set cols.
                 \<not> nullish (getField r (key col)) \<and>
                 sublist (toLowerCase srch) (toLowerCase (String (getField r (key col)))))"
    by (rule ext) (simp add: row_matches_def list_ex_iff Let_def str_includes_sublist)
  with assms show ?thesis
    by (simp add: filtered_def Let_def)
qed

theorem filter_stage_matches_witness:
  "trim ''ALI'' \<noteq> [] \<and> filtered sample_data ''ALI'' [name_column] = [sample_alice] \<and>
   filtered sample_data ''ALI'' [name_column] =
     filter (\<lambda>r. \<exists>col \<in> set [name_column].
                    \<not> nullish (getField r (key col)) \<and>
                    sublist (toLowerCase ''ALI'') (toLowerCase (String (getField r (key col)))))
            sample_data"
proof -
  have h: "trim ''ALI'' \<noteq> []"
    by code_simp
  have e: "filtered sample_data ''ALI'' [name_column] = [sample_alice]"
    by code_simp
  from h e filter_stage_matches [OF h, of sample_data "[name_column]"] show ?thesis
    by blast
qed

text \<open>
  C1, as stated, fails on a search string with white space around it: the search
  \<open>bob\<close> followed by a space has the non-empty trimmed form \<open>bob\<close>, which the
  lower-cased name of the record Bob contains, yet the filter stage leaves the record out,
  because it looks for the four characters typed.
\<close>

theorem filter_stage_trimmed_counterexample:
  "trim ''bob '' \<noteq> [] \<and>
   \<not> nullish (getField sample_bob (key name_column)) \<and>
   sublist (toLowerCase (trim ''bob ''))
           (toLowerCase (String (getField sample_bob (key name_column)))) \<and>
   sample_bob \<notin> set (filtered [sample_bob] ''bob '' [name_column])"
  by code_simp

section \<open>Sorting: the cycle of a column header\<close>

lemma handleSort_invariant: "sort_invariant (fst (handleSort k st))"
  by (simp add: handleSort_def sort_invariant_def Let_def)

text \<open>
  C9. The direction is none if and only if the active sort column is none: in the initial
  state, after any activation of a column header from any state, and after every sequence
  of activations from the initial state.
\<close>

theorem sort_invariant_always:
  "sort_invariant initial_state \<and>
   sort_invariant (fst (handleSort k st)) \<and>
   sort_invariant (foldl (\<lambda>s k. fst (handleSort k s)) initial_state ks)"
proof -
  have init: "sort_invariant initial_state"
    by (simp add: sort_invariant_def initial_state_def)
  have run: "sort_invariant (foldl (\<lambda>s k. fst (handleSort k s)) initial_state ks)"
  proof (induction ks rule: rev_induct)
    case Nil
    show ?case using init by simp
  next
    case (snoc k ks)
    show ?case by (simp add: handleSort_invariant)
  qed
  show ?thesis using init run handleSort_invariant by simp
qed

text \<open>
  C5. Activating a column that is not the active one (in particular from the unsorted
  state) sets it ascending; the second activation of the same column sets descending, the
  third returns to unsorted, where the sort stage hands the filtered sequence on unchanged,
  and the fourth gives the state of the first again.
\<close>

theorem sort_cycle:
  assumes "sortKey st \<noteq> Some k"
  shows "(let s1 = fst (handleSort k st); s2 = fst (handleSort k s1);
              s3 = fst (handleSort k s2); s4 = fst (handleSort k s3)
          in sortKey s1 = Some k \<and> sortDir s1 = Some Asc \<and>
             sortKey s2 = Some k \<and> sortDir s2 = Some Desc \<and>
             sortKey s3 = None \<and> sortDir s3 = None \<and>
             sorted_rows lc flt (sortKey s3) (sortDir s3) = flt \<and>
             s4 = s1)"
  using assms by (simp add: handleSort_def Let_def sorted_rows_def)

theorem sort_cycle_witness:
  "sortKey initial_state \<noteq> Some ''name'' \<and>
   sortDir (fst (handleSort ''name'' initial_state)) = Some Asc \<and>
   fst (handleSort ''name'' (fst (handleSort ''name'' (fst (handleSort ''name'' initial_state)))))
     = initial_state"
  using sort_cycle [of initial_state "''name''" code_compare "[]"]
  by (simp add: initial_state_def handleSort_def Let_def)

section \<open>Selection\<close>

lemma fold_toggle:
  "fold (\<lambda>i nxt. if b then nxt - {i} else insert i nxt) ids prev =
     (if b then prev - set ids else prev \<union> set ids)"
  by (induction ids arbitrary: prev) auto

lemma toggleAll_selected:
  "selected (fst (toggleAll pag dat st)) =
     (if set (map row_id pag) \<subseteq> selected st then selected st - set (map row_id pag)
      else selected st \<union> set (map row_id pag))"
  by (auto simp add: toggleAll_def Let_def fold_toggle list_all_iff)

text \<open>
  C6. The select-all toggle works on the identifiers of the visible page only: when every
  visible identifier is selected it removes exactly those, otherwise it adds all of them;
  an identifier that is not on the visible page keeps its membership.
\<close>

theorem toggleAll_visible_only:
  "(let ids = set (map row_id pag); prev = selected st;
        next = selected (fst (toggleAll pag dat st))
    in (if \<forall>i \<in> ids. i \<in> prev then next = prev - ids else next = prev \<union> ids) \<and>
       (\<forall>x. x \<notin> ids \<longrightarrow> (x \<in> next) = (x \<in> prev)))"
  unfolding Let_def toggleAll_selected by auto

theorem toggleAll_visible_only_witness:
  "Num 3 \<notin> set (map row_id [sample_bob, sample_alice]) \<and>
   selected (fst (toggleAll [sample_bob, sample_alice] sample_data
                   (initial_state\<lparr>selected := {Num 1, Num 3}\<rparr>))) = {Num 1, Num 2, Num 3}"
  using toggleAll_visible_only
          [of "[sample_bob, sample_alice]" "initial_state\<lparr>selected := {Num 1, Num 3}\<rparr>" sample_data]
  by (auto simp add: Let_def row_id_def getField_def sample_bob_def sample_alice_def
        initial_state_def split: if_splits)

lemma toggleRow_selected:
  "selected (fst (toggleRow dat rid st)) =
     (if rid \<in> selected st then selected st - {rid} else selected st \<union> {rid})"
  by (simp add: toggleRow_def Let_def)

lemma toggleRow_rows:
  "snd (toggleRow dat rid st) =
     filter (\<lambda>r. row_id r \<in> selected (fst (toggleRow dat rid st))) dat"
  by (simp add: toggleRow_def Let_def)

lemma toggleAll_rows:
  "snd (toggleAll pag dat st) =
     filter (\<lambda>r. row_id r \<in> selected (fst (toggleAll pag dat st))) dat"
  by (simp add: toggleAll_def Let_def)

text \<open>
  C7. A single-row toggle flips the identifier in the selection set, a select-all toggle
  removes the visible identifiers when all of them are selected and adds them otherwise;
  in both cases the selection callback receives the records of the whole data array whose
  identifier is in that updated set, in the order of the data array (visible or not).
\<close>

theorem selection_callback_full_data:
  "(let prev = selected st;
        next = (if rid \<in> prev then prev - {rid} else prev \<union> {rid})
    in selected (fst (toggleRow dat rid st)) = next \<and>
       snd (toggleRow dat rid st) = filter (\<lambda>r. row_id r \<in> next) dat \<and>
       subseq (snd (toggleRow dat rid st)) dat) \<and>
   (let prev = selected st; ids = set (map row_id pag);
        next = (if ids \<subseteq> prev then prev - ids else prev \<union> ids)
    in selected (fst (toggleAll pag dat st)) = next \<and>
       snd (toggleAll pag dat st) = filter (\<lambda>r. row_id r \<in> next) dat \<and>
       subseq (snd (toggleAll pag dat st)) dat)"
proof -
  have r1: "snd (toggleRow dat rid st) =
              filter (\<lambda>r. row_id r \<in> (if rid \<in> selected st then selected st - {rid}
                                       else selected st \<union> {rid})) dat"
    unfolding toggleRow_rows toggleRow_selected by (rule refl)
  have r2: "snd (toggleAll pag dat st) =
              filter (\<lambda>r. row_id r \<in> (if set (map row_id pag) \<subseteq> selected st
                                       then selected st - set (map row_id pag)
                                       else selected st \<union> set (map row_id pag))) dat"
    unfolding toggleAll_rows toggleAll_selected by (rule refl)
  have s1: "subseq (snd (toggleRow dat rid st)) dat"
    unfolding r1 by (rule subseq_filter_left)
  have s2: "subseq (snd (toggleAll pag dat st)) dat"
    unfolding r2 by (rule subseq_filter_left)
  show ?thesis
    unfolding Let_def using toggleRow_selected toggleAll_selected r1 r2 s1 s2 by blast
qed

theorem selection_callback_full_data_witness:
  "snd (toggleRow sample_data (Num 1) (initial_state\<lparr>selected := {Num 3}\<rparr>))
     = [sample_bob, sample_anon] \<and>
   snd (toggleRow sample_data (Num 3) (initial_state\<lparr>selected := {Num 3}\<rparr>)) = [] \<and>
   snd (toggleAll [sample_bob] sample_data (initial_state\<lparr>selected := {Num 3}\<rparr>))
     = [sample_bob, sample_anon] \<and>
   snd (toggleAll [sample_bob] sample_data (initial_state\<lparr>selected := {Num 1, Num 3}\<rparr>))
     = [sample_anon]"
  using
    selection_callback_full_data
      [of "initial_state\<lparr>selected := {Num 3}\<rparr>" "Num 1" sample_data "[sample_bob]"]
    selection_callback_full_data
      [of "initial_state\<lparr>selected := {Num 3}\<rparr>" "Num 3" sample_data "[sample_bob]"]
    selection_callback_full_data
      [of "initial_state\<lparr>selected := {Num 1, Num 3}\<rparr>" "Num 1" sample_data "[sample_bob]"]
  by (simp add: Let_def row_id_def getField_def sample_data_def sample_bob_def sample_anon_def
        sample_alice_def)

text \<open>
  C2, as the code has it. When the visible rows are all selected or all unselected, two
  select-all toggles in a row give back the selection set: on the identifiers of the
  visible page, and as a whole. On a partly selected page the first toggle selects every
  visible row and the second deselects every visible row; identifiers off the page stay
  as they were.
\<close>

theorem toggleAll_twice:
  "(let ids = set (map row_id pag); prev = selected st;
        once = selected (fst (toggleAll pag dat st));
        twice = selected (fst (toggleAll pag dat (fst (toggleAll pag dat st))))
    in ((\<forall>i \<in> ids. i \<in> prev) \<or> (\<forall>i \<in> ids. i \<notin> prev) \<longrightarrow>
          twice \<inter> ids = prev \<inter> ids \<and> twice = prev) \<and>
       ((\<exists>i \<in> ids. i \<in> prev) \<and> (\<exists>i \<in> ids. i \<notin> prev) \<longrightarrow>
          once = prev \<union> ids \<and> twice = prev - ids))"
  unfolding Let_def toggleAll_selected by auto

theorem toggleAll_twice_witness:
  "row_id sample_bob \<notin> {Num 3} \<and> row_id sample_alice \<notin> {Num 3} \<and>
   selected (fst (toggleAll [sample_bob, sample_alice] sample_data
     (fst (toggleAll [sample_bob, sample_alice] sample_data (initial_state\<lparr>selected := {Num 3}\<rparr>)))))
     = {Num 3} \<and>
   row_id sample_bob \<in> {Num 1, Num 3} \<and> row_id sample_alice \<notin> {Num 1, Num 3} \<and>
   selected (fst (toggleAll [sample_bob, sample_alice] sample_data
                   (initial_state\<lparr>selected := {Num 1, Num 3}\<rparr>)))
     = {Num 1, Num 2, Num 3} \<and>
   selected (fst (toggleAll [sample_bob, sample_alice] sample_data
     (fst (toggleAll [sample_bob, sample_alice] sample_data
            (initial_state\<lparr>selected := {Num 1, Num 3}\<rparr>)))))
     = {Num 3}"
  using
    toggleAll_twice [of "[sample_bob, sample_alice]" "initial_state\<lparr>selected := {Num 3}\<rparr>" sample_data]
    toggleAll_twice [of "[sample_bob, sample_alice]" "initial_state\<lparr>selected := {Num 1, Num 3}\<rparr>" sample_data]
  by (auto simp add: Let_def row_id_def getField_def sample_bob_def sample_alice_def)

text \<open>
  C2, as stated, fails on a partly selected page: with records 1 and 2 visible and only 1
  selected, the first toggle selects both and the second deselects both, so record 1 has
  lost its selection.
\<close>

theorem toggleAll_twice_counterexample:
  "selected (fst (toggleAll [sample_bob, sample_alice] sample_data
     (fst (toggleAll [sample_bob, sample_alice] sample_data (initial_state\<lparr>selected := {Num 1}\<rparr>)))))
     \<inter> set (map row_id [sample_bob, sample_alice])
   \<noteq> selected (initial_state\<lparr>selected := {Num 1}\<rparr>) \<inter> set (map row_id [sample_bob, sample_alice])"
  by (simp add: toggleAll_selected row_id_def getField_def sample_bob_def sample_alice_def)

section \<open>Pagination\<close>

lemma ceil_div_int:
  assumes "1 \<le> (p::int)"
  shows "- (- n div p) = (n + p - 1) div p"
proof -
  define q where "q = n div p"
  define r where "r = n mod p"
  have n: "n = p * q + r" and r0: "0 \<le> r" and rp: "r < p"
    using assms by (simp_all add: q_def r_def)
  show ?thesis
  proof (cases "r = 0")
    case True
    have "- n div p = - q"
      by (rule int_div_pos_eq [where r = 0]) (use n True assms in auto)
    moreover have "(n + p - 1) div p = q"
      by (rule int_div_pos_eq [where r = "p - 1"])
         (use n True assms in \<open>auto simp add: algebra_simps\<close>)
    ultimately show ?thesis by simp
  next
    case False
    have "- n div p = - q - 1"
      by (rule int_div_pos_eq [where r = "p - r"])
         (use n False r0 rp in \<open>auto simp add: algebra_simps\<close>)
    moreover have "(n + p - 1) div p = q + 1"
      by (rule int_div_pos_eq [where r = "r - 1"])
         (use n False r0 rp in \<open>auto simp add: algebra_simps\<close>)
    ultimately show ?thesis by simp
  qed
qed

lemma totalPages_div:
  assumes "1 \<le> p"
  shows "totalPages xs p = max 1 ((int (length xs) + p - 1) div p)"
proof -
  have "\<lceil>real (length xs) / real_of_int p\<rceil> = - (- int (length xs) div p)"
    using ceiling_divide_eq_div [of "int (length xs)" p] by simp
  also have "\<dots> = (int (length xs) + p - 1) div p"
    using ceil_div_int [OF assms] by simp
  finally show ?thesis
    by (simp add: totalPages_def)
qed

lemma totalPages_covers:
  assumes "1 \<le> p"
  shows "1 \<le> totalPages xs p \<and> int (length xs) \<le> totalPages xs p * p"
proof -
  have "int (length xs) \<le> ((int (length xs) + p - 1) div p) * p"
  proof -
    have "(int (length xs) + p - 1) mod p < p"
      using assms by simp
    moreover have "((int (length xs) + p - 1) div p) * p + (int (length xs) + p - 1) mod p
                   = int (length xs) + p - 1"
      by simp
    ultimately show ?thesis by linarith
  qed
  moreover have "((int (length xs) + p - 1) div p) * p
                 \<le> max 1 ((int (length xs) + p - 1) div p) * p"
    using assms by (intro mult_right_mono) auto
  ultimately have "int (length xs) \<le> max 1 ((int (length xs) + p - 1) div p) * p"
    by (rule order_trans)
  then show ?thesis
    unfolding totalPages_div [OF assms] by simp
qed

lemma paginated_take_drop:
  assumes "1 \<le> p" "1 \<le> k"
  shows "paginated xs k p = take (nat p) (drop (nat ((k - 1) * p)) xs)"
proof -
  define start where "start = (k - 1) * p"
  have s0: "0 \<le> start"
    using assms by (simp add: start_def)
  show ?thesis
  proof (cases "start \<le> int (length xs)")
    case True
    then have "slice xs start (start + p) =
                 take (nat (min (start + p) (int (length xs)) - start)) (drop (nat start) xs)"
      using s0 assms by (simp add: slice_def Let_def)
    also have "\<dots> = take (nat p) (drop (nat start) xs)"
      using True s0 assms by (auto simp add: min_def)
    finally show ?thesis
      by (simp add: paginated_def start_def Let_def)
  next
    case False
    then show ?thesis
      using s0 assms by (simp add: paginated_def slice_def Let_def start_def [symmetric])
  qed
qed

lemma pages_concat:
  assumes "1 \<le> p"
  shows "concat (map (\<lambda>k. paginated xs k p) [1 .. int m]) = take (m * nat p) xs"
proof (induction m)
  case 0
  show ?case by simp
next
  case (Suc m)
  have up: "[1 .. int (Suc m)] = [1 .. int m] @ [int m + 1]"
    using upto_rec2 [of 1 "int m + 1"] by (simp add: add.commute)
  have pg: "paginated xs (int m + 1) p = take (nat p) (drop (m * nat p) xs)"
    using paginated_take_drop [OF assms, of "int m + 1" xs] assms
    by (simp add: nat_mult_distrib)
  have tk: "take (Suc m * nat p) xs = take (m * nat p) xs @ take (nat p) (drop (m * nat p) xs)"
    using take_add [of "m * nat p" "nat p" xs] by (simp add: add.commute)
  show ?case
    unfolding up tk using Suc pg by simp
qed

text \<open>
  Every handler that stores a page number stores one that is at least 1, so the current
  page is at least 1 in every state the component reaches from its initial state.
\<close>

lemma currentPage_step:
  assumes "rendered_event ev" and "1 \<le> currentPage st"
  shows "1 \<le> currentPage (page_step st ev)"
  using assms
  by (cases ev)
     (simp_all add: onSearchChange_def onPrev_def onNext_def onPageButton_def windowPage_def)

lemma currentPage_positive:
  assumes "list_all rendered_event evs"
  shows "1 \<le> currentPage (foldl page_step initial_state evs)"
  using assms
proof (induction evs rule: rev_induct)
  case Nil
  show ?case by (simp add: initial_state_def)
next
  case (snoc ev evs)
  then show ?case by (simp add: currentPage_step)
qed

text \<open>
  C4. For a page size of at least 1 and a current page of at least 1 (which every handler
  keeps): the number of pages is the maximum of 1 and the rounded-up quotient; the page
  used for slicing is the current page clamped into the pages there are; the visible slice
  is the window of page-size records that starts at (page - 1) times the page size; and
  the slices of pages 1 to the last, one after the other, are the sorted sequence.
\<close>

theorem pagination_pages:
  assumes "1 \<le> p" "1 \<le> c"
  shows "(let n = int (length xs); tp = totalPages xs p; cur = safeCurrentPage c tp
          in tp = max 1 \<lceil>real_of_int n / real_of_int p\<rceil> \<and>
             tp = max 1 ((n + p - 1) div p) \<and>
             cur = max 1 (min c tp) \<and> 1 \<le> cur \<and> cur \<le> tp \<and>
             paginated xs cur p = take (nat p) (drop (nat ((cur - 1) * p)) xs) \<and>
             concat (map (\<lambda>k. paginated xs (safeCurrentPage k tp) p) [1 .. tp]) = xs)"
proof -
  define tp where "tp = totalPages xs p"
  define cur where "cur = safeCurrentPage c tp"
  have tp1: "1 \<le> tp" and cover: "int (length xs) \<le> tp * p"
    using totalPages_covers [OF assms(1), of xs] by (simp_all add: tp_def)
  have a0: "tp = max 1 \<lceil>real_of_int (int (length xs)) / real_of_int p\<rceil>"
    by (simp add: tp_def totalPages_def)
  have a: "tp = max 1 ((int (length xs) + p - 1) div p)"
    using totalPages_div [OF assms(1)] by (simp add: tp_def)
  have b: "cur = max 1 (min c tp) \<and> 1 \<le> cur \<and> cur \<le> tp"
    using assms tp1 by (simp add: cur_def safeCurrentPage_def)
  have c: "paginated xs cur p = take (nat p) (drop (nat ((cur - 1) * p)) xs)"
    using paginated_take_drop [OF assms(1), of cur xs] b by simp
  have same: "map (\<lambda>k. paginated xs (safeCurrentPage k tp) p) [1 .. tp]
              = map (\<lambda>k. paginated xs k p) [1 .. tp]"
    by (rule map_cong) (simp_all add: safeCurrentPage_def)
  have "concat (map (\<lambda>k. paginated xs k p) [1 .. int (nat tp)]) = take (nat tp * nat p) xs"
    by (rule pages_concat [OF assms(1)])
  moreover have "length xs \<le> nat tp * nat p"
    using cover tp1 assms(1) by (metis nat_int nat_mono nat_mult_distrib zero_le_one order_trans)
  ultimately have d: "concat (map (\<lambda>k. paginated xs k p) [1 .. tp]) = xs"
    using tp1 by simp
  have e: "concat (map (\<lambda>k. paginated xs (safeCurrentPage k tp) p) [1 .. tp]) = xs"
    unfolding same by (rule d)
  show ?thesis
    unfolding Let_def tp_def [symmetric] cur_def [symmetric]
    using a0 a b c e by blast
qed

theorem pagination_pages_witness:
  "(1::int) \<le> 1 \<and> (1::int) \<le> 5 \<and>
   totalPages sample_data 1 = 3 \<and> safeCurrentPage 5 (totalPages sample_data 1) = 3 \<and>
   paginated sample_data 3 1 = [sample_alice] \<and>
   concat (map (\<lambda>k. paginated sample_data k 1) [1, 2, 3]) = sample_data"
proof -
  have e: "totalPages sample_data 1 = 3 \<and> safeCurrentPage 5 (totalPages sample_data 1) = 3 \<and>
           paginated sample_data 3 1 = [sample_alice] \<and>
           concat (map (\<lambda>k. paginated sample_data k 1) [1, 2, 3]) = sample_data"
    by code_simp
  have h: "(1::int) \<le> 1 \<and> (1::int) \<le> 5"
    by simp
  from e h pagination_pages [of 1 5 sample_data] show ?thesis
    by blast
qed

section \<open>The numbered page buttons\<close>







section \<open>The sort stage\<close>

lemma mset_sort_insert: "mset (sort_insert cmp x ys) = add_mset x (mset ys)"
  by (induction ys) auto

lemma mset_foldl_insert:
  "mset (foldl (\<lambda>acc x. sort_insert cmp x acc) acc xs) = mset acc + mset xs"
  by (induction xs arbitrary: acc) (auto simp add: mset_sort_insert)

lemma mset_array_sort: "mset (array_sort cmp xs) = mset xs"
  by (simp add: array_sort_def mset_foldl_insert)

lemma set_sort_insert: "set (sort_insert cmp x ys) = insert x (set ys)"
  by (induction ys) auto

lemma comparator_flip:
  assumes "consistent_comparator lc"
  shows "(0 \<le> lc a b) = (lc b a \<le> 0)"
proof -
  have "(lc a b < 0) = (0 < lc b a)"
    using assms unfolding consistent_comparator_def by blast
  then show ?thesis by linarith
qed

lemma comparator_trans:
  assumes "consistent_comparator lc" and "lc a b \<le> 0" and "lc b c \<le> 0"
  shows "lc a c \<le> 0"
proof -
  have "\<forall>a b c. lc a b \<le> 0 \<and> lc b c \<le> 0 \<longrightarrow> lc a c \<le> 0"
    using assms(1) unfolding consistent_comparator_def by blast
  with assms(2,3) show ?thesis by blast
qed

lemma value_order_trans:
  assumes "consistent_comparator lc"
    and "value_order lc dir u v" and "value_order lc dir v w"
  shows "value_order lc dir u w"
proof (cases "dir = Asc")
  case True
  with assms(2,3) have "lc (String u) (String v) \<le> 0" "lc (String v) (String w) \<le> 0"
    by (simp_all add: value_order_def)
  then have "lc (String u) (String w) \<le> 0"
    by (rule comparator_trans [OF assms(1)])
  with True show ?thesis by (simp add: value_order_def)
next
  case False
  with assms(2,3) have "0 \<le> lc (String u) (String v)" "0 \<le> lc (String v) (String w)"
    by (simp_all add: value_order_def)
  then have "lc (String w) (String v) \<le> 0" "lc (String v) (String u) \<le> 0"
    by (simp_all add: comparator_flip [OF assms(1)])
  then have "lc (String w) (String u) \<le> 0"
    by (rule comparator_trans [OF assms(1)])
  then have "0 \<le> lc (String u) (String w)"
    by (simp add: comparator_flip [OF assms(1)])
  with False show ?thesis by (simp add: value_order_def)
qed

lemma row_order_trans:
  assumes "consistent_comparator lc"
    and "row_order lc k dir a b" and "row_order lc k dir b c"
  shows "row_order lc k dir a c"
  using assms(2,3) value_order_trans [OF assms(1)]
  unfolding row_order_def by blast

text \<open>What one call of the comparator tells the sort about the two records.\<close>

lemma compare_rows_below:
  assumes "compare_rows lc k dir x y < 0"
  shows "row_order lc k dir x y"
proof (cases "nullish (getField x k)")
  case True
  with assms show ?thesis by (simp add: compare_rows_def Let_def)
next
  case xv: False
  show ?thesis
  proof (cases "nullish (getField y k)")
    case True
    with xv show ?thesis by (simp add: row_order_def)
  next
    case yv: False
    show ?thesis
      using assms xv yv
      by (cases "dir = Asc") (simp_all add: compare_rows_def row_order_def value_order_def Let_def)
  qed
qed

lemma compare_rows_not_below:
  assumes "consistent_comparator lc" and "\<not> compare_rows lc k dir x y < 0"
  shows "row_order lc k dir y x"
proof (cases "nullish (getField x k)")
  case True
  then show ?thesis by (simp add: row_order_def)
next
  case xv: False
  show ?thesis
  proof (cases "nullish (getField y k)")
    case True
    with xv assms(2) show ?thesis by (simp add: compare_rows_def Let_def)
  next
    case yv: False
    define u where "u = String (getField x k)"
    define v where "v = String (getField y k)"
    have s1: "(0 \<le> lc u v) = (lc v u \<le> 0)" and s2: "(0 \<le> lc v u) = (lc u v \<le> 0)"
      by (rule comparator_flip [OF assms(1)])+
    have raw: "if dir = Asc then \<not> lc u v < 0 else \<not> - lc u v < 0"
      using assms(2) xv yv
      by (cases "dir = Asc") (simp_all add: compare_rows_def Let_def u_def v_def)
    have "if dir = Asc then lc v u \<le> 0 else 0 \<le> lc v u"
    proof (cases "dir = Asc")
      case True
      with raw have "0 \<le> lc u v" by simp
      with s1 True show ?thesis by simp
    next
      case False
      with raw have "lc u v \<le> 0" by simp
      with s2 False show ?thesis by simp
    qed
    then show ?thesis
      using xv yv unfolding row_order_def value_order_def u_def v_def
      by (cases "dir = Asc") simp_all
  qed
qed

lemma sorted_wrt_sort_insert:
  assumes "consistent_comparator lc"
    and "sorted_wrt (row_order lc k dir) ys"
  shows "sorted_wrt (row_order lc k dir) (sort_insert (compare_rows lc k dir) x ys)"
  using assms(2)
proof (induction ys)
  case Nil
  show ?case by simp
next
  case (Cons y ys)
  show ?case
  proof (cases "compare_rows lc k dir x y < 0")
    case True
    then have xy: "row_order lc k dir x y"
      by (rule compare_rows_below)
    have "\<forall>z \<in> set ys. row_order lc k dir x z"
      using Cons.prems xy row_order_trans [OF assms(1)] by auto
    with True xy Cons.prems show ?thesis by simp
  next
    case False
    then have yx: "row_order lc k dir y x"
      by (rule compare_rows_not_below [OF assms(1)])
    with False Cons show ?thesis
      by (auto simp add: set_sort_insert)
  qed
qed

lemma sorted_wrt_foldl_insert:
  assumes "consistent_comparator lc"
    and "sorted_wrt (row_order lc k dir) acc"
  shows "sorted_wrt (row_order lc k dir)
           (foldl (\<lambda>acc x. sort_insert (compare_rows lc k dir) x acc) acc xs)"
  using assms(2)
  by (induction xs arbitrary: acc) (simp_all add: sorted_wrt_sort_insert [OF assms(1)])

lemma sorted_wrt_array_sort:
  assumes "consistent_comparator lc"
  shows "sorted_wrt (row_order lc k dir) (array_sort (compare_rows lc k dir) xs)"
  unfolding array_sort_def
  by (rule sorted_wrt_foldl_insert [OF assms]) simp

text \<open>The sample collation is a consistent comparator.\<close>

lemma code_compare_refl: "code_compare a a = 0"
  by (induction a) simp_all

lemma code_compare_sign: "(code_compare a b < 0) = (0 < code_compare b a)"
  by (induction a b rule: code_compare.induct) simp_all

lemma code_compare_Cons_le:
  "(code_compare (x # xs) (y # ys) \<le> 0) =
     ((of_char x :: nat) < of_char y \<or>
      ((of_char x :: nat) = of_char y \<and> code_compare xs ys \<le> 0))"
proof (cases "(of_char x :: nat) < of_char y")
  case True
  then show ?thesis by simp
next
  case ge: False
  show ?thesis
  proof (cases "(of_char y :: nat) < of_char x")
    case True
    with ge have "x \<noteq> y" by auto
    with ge True show ?thesis by simp
  next
    case False
    with ge have "(of_char x :: nat) = of_char y" by linarith
    with ge False show ?thesis by simp
  qed
qed

lemma code_compare_trans:
  "code_compare a b \<le> 0 \<Longrightarrow> code_compare b c \<le> 0 \<Longrightarrow> code_compare a c \<le> 0"
proof (induction a arbitrary: b c)
  case Nil
  then show ?case by (cases c) simp_all
next
  case (Cons x xs)
  obtain y ys where b: "b = y # ys"
    using Cons.prems(1) by (cases b) simp_all
  obtain z zs where c: "c = z # zs"
    using Cons.prems(2) b by (cases c) simp_all
  from Cons.prems(1) b have xy:
    "(of_char x :: nat) < of_char y \<or>
     ((of_char x :: nat) = of_char y \<and> code_compare xs ys \<le> 0)"
    by (simp only: code_compare_Cons_le)
  from Cons.prems(2) b c have yz:
    "(of_char y :: nat) < of_char z \<or>
     ((of_char y :: nat) = of_char z \<and> code_compare ys zs \<le> 0)"
    by (simp only: code_compare_Cons_le)
  have "(of_char x :: nat) < of_char z \<or>
        ((of_char x :: nat) = of_char z \<and> code_compare xs zs \<le> 0)"
    using xy yz Cons.IH [of ys zs] by auto
  then show ?case
    unfolding c by (simp only: code_compare_Cons_le)
qed

lemma code_compare_consistent: "consistent_comparator code_compare"
  unfolding consistent_comparator_def
proof (intro conjI allI impI)
  fix a show "code_compare a a = 0" by (rule code_compare_refl)
next
  fix a b show "(code_compare a b < 0) = (0 < code_compare b a)" by (rule code_compare_sign)
next
  fix a b c assume "code_compare a b \<le> 0 \<and> code_compare b c \<le> 0"
  then show "code_compare a c \<le> 0" using code_compare_trans by blast
qed

text \<open>
  The sort stage on a key that is not the empty string. With such a sort column and a
  direction set, and a collation that is a consistent comparator, the output of the sort
  stage is a rearrangement of the filtered records in which every two neighbours with
  non-null values are in collation order (at most 0 ascending, at least 0 descending), and
  no record with a null or undefined value stands before a record with a value, whatever
  the direction.
\<close>

theorem sort_stage_ordered:
  assumes "consistent_comparator lc" and "k \<noteq> []"
  shows "(let out = sorted_rows lc flt (Some k) (Some dir);
              val = (\<lambda>i. getField (out ! i) k)
          in mset out = mset flt \<and>
             (\<forall>i. Suc i < length out \<and> \<not> nullish (val i) \<and> \<not> nullish (val (Suc i)) \<longrightarrow>
                  (if dir = Asc then lc (String (val i)) (String (val (Suc i))) \<le> 0
                   else 0 \<le> lc (String (val i)) (String (val (Suc i))))) \<and>
             (\<forall>i j. i < j \<and> j < length out \<and> nullish (val i) \<longrightarrow> nullish (val j)))"
proof -
  define out where "out = sorted_rows lc flt (Some k) (Some dir)"
  have out: "out = array_sort (compare_rows lc k dir) flt"
    using assms(2) by (simp add: out_def sorted_rows_def)
  have ms: "mset out = mset flt"
    by (simp add: out mset_array_sort)
  have "sorted_wrt (row_order lc k dir) out"
    unfolding out by (rule sorted_wrt_array_sort [OF assms(1)])
  then have nth: "\<And>i j. i < j \<Longrightarrow> j < length out \<Longrightarrow> row_order lc k dir (out ! i) (out ! j)"
    by (simp add: sorted_wrt_iff_nth_less)
  have adj: "\<forall>i. Suc i < length out \<and> \<not> nullish (getField (out ! i) k)
                  \<and> \<not> nullish (getField (out ! Suc i) k) \<longrightarrow>
               (if dir = Asc
                then lc (String (getField (out ! i) k)) (String (getField (out ! Suc i) k)) \<le> 0
                else 0 \<le> lc (String (getField (out ! i) k)) (String (getField (out ! Suc i) k)))"
    using nth [of _ "Suc _"] unfolding row_order_def value_order_def by auto
  have last: "\<forall>i j. i < j \<and> j < length out \<and> nullish (getField (out ! i) k)
                 \<longrightarrow> nullish (getField (out ! j) k)"
    using nth unfolding row_order_def by blast
  show ?thesis
    unfolding Let_def out_def [symmetric] using ms adj last by blast
qed

theorem sort_stage_ordered_witness:
  "consistent_comparator code_compare \<and> ''name'' \<noteq> [] \<and>
   sorted_rows code_compare sample_data (Some ''name'') (Some Asc)
     = [sample_alice, sample_bob, sample_anon] \<and>
   sorted_rows code_compare sample_data (Some ''name'') (Some Desc)
     = [sample_bob, sample_alice, sample_anon]"
proof -
  have e: "sorted_rows code_compare sample_data (Some ''name'') (Some Asc)
             = [sample_alice, sample_bob, sample_anon] \<and>
           sorted_rows code_compare sample_data (Some ''name'') (Some Desc)
             = [sample_bob, sample_alice, sample_anon]"
    by code_simp
  have h: "''name'' \<noteq> []"
    by simp
  from e h code_compare_consistent
    sort_stage_ordered [OF code_compare_consistent h, of sample_data Asc]
  show ?thesis
    by blast
qed

text \<open>
  C3. The claim fails for a sortable column whose key is the empty string. Activating its
  header stores the key with the direction ascending, as for every other column (the
  header then shows the ascending mark and \<open>aria-sort\<close> says ascending), but the sort
  stage tests the key for truthiness, finds the empty string falsy and hands the filtered
  records on unsorted, in any direction and under any collation: the two sample records
  stay in the order b, a although b collates above a.
\<close>

theorem sort_stage_empty_key:
  "sortKey (fst (handleSort (key empty_key_column) initial_state)) = Some '''' \<and>
   sortDir (fst (handleSort (key empty_key_column) initial_state)) = Some Asc \<and>
   sorted_rows lc flt (Some '''') (Some dir) = flt \<and>
   sorted_rows code_compare [sample_row_b, sample_row_a] (Some '''') (Some Asc)
     = [sample_row_b, sample_row_a] \<and>
   \<not> nullish (getField sample_row_b '''') \<and> \<not> nullish (getField sample_row_a '''') \<and>
   0 < code_compare (String (getField sample_row_b '''')) (String (getField sample_row_a ''''))"
  by (simp add: handleSort_def initial_state_def empty_key_column_def sorted_rows_def Let_def
        getField_def sample_row_b_def sample_row_a_def)

end
